theory Spec2Isabelle
  imports Main "HOL-Library.Word" "HOL-Library.Monad_Syntax"
begin

unbundle bit_operations_syntax

section \<open>Machine integers of the source\<close>

text \<open>
  \<^verbatim>\<open>uint8_t\<close> and \<open>uint16_t\<close> are words of 8 and 16 bits. Every arithmetic
  expression of the source on them is evaluated in \<^verbatim>\<open>int\<close> after integer promotion;
  \<^verbatim>\<open>int\<close> is taken to be 32 bits wide. An \<^verbatim>\<open>int\<close> compared with, or used as, a
  \<^verbatim>\<open>size_t\<close> is sign-extended to 64 bits and read unsigned.
\<close>

type_synonym byte = "8 word"
type_synonym u16 = "16 word"
type_synonym cint = "32 word"

definition int_to_size_t :: "cint \<Rightarrow> nat" where
  "int_to_size_t x = unat (scast x :: 64 word)"

text \<open>\<^verbatim>\<open>(hi << 8) | lo\<close> on two promoted bytes, stored into a \<open>uint16_t\<close>.\<close>

definition u16_of_bytes :: "byte \<Rightarrow> byte \<Rightarrow> u16" where
  "u16_of_bytes hi lo = ucast (push_bit 8 (ucast hi :: cint) OR (ucast lo :: cint))"

text \<open>\<^verbatim>\<open>push_back(v >> 8)\<close> and \<^verbatim>\<open>push_back(v & 0xFF)\<close> for a \<open>uint16_t v\<close>.\<close>

definition high_byte :: "u16 \<Rightarrow> byte" where
  "high_byte v = ucast (drop_bit 8 (ucast v :: cint))"

definition low_byte :: "u16 \<Rightarrow> byte" where
  "low_byte v = ucast ((ucast v :: cint) AND 0xFF)"

section \<open>Vectors\<close>

text \<open>
  \<^verbatim>\<open>operator[]\<close> of \<open>std::vector\<close> outside the vector is undefined behaviour;
  the model returns \<open>None\<close> there, and every function that reads a vector
  propagates it.
\<close>

definition at_vec :: "'a list \<Rightarrow> nat \<Rightarrow> 'a option" where
  "at_vec xs i = (if i < length xs then Some (xs ! i) else None)"

text \<open>\<^verbatim>\<open>std::vector(first, first + n)\<close>: undefined when the range leaves the vector.\<close>

definition prefix_vec :: "'a list \<Rightarrow> nat \<Rightarrow> 'a list option" where
  "prefix_vec xs n = (if n \<le> length xs then Some (take n xs) else None)"

text \<open>\<^verbatim>\<open>std::vector::resize\<close>: truncates, or pads with zero bytes.\<close>

definition resize_vec :: "byte list \<Rightarrow> nat \<Rightarrow> byte list" where
  "resize_vec xs n = take n xs @ replicate (n - length xs) 0"

section \<open>The register store\<close>

text \<open>
  Modelled from the spec: the class \<open>HoldingRegister\<close> (its header is not part of
  the sources at hand). The spec gives a fixed-size ordered sequence of 16-bit
  unsigned words with \<open>get(index)\<close>, \<open>set(index, word)\<close> and a size, where
  \<open>index < size\<close> is the caller's obligation; an access that breaks the
  obligation is \<open>None\<close> here.
\<close>

type_synonym HoldingRegister = "u16 list"

definition reg_size :: "HoldingRegister \<Rightarrow> nat" where
  "reg_size reg = length reg"

definition getUint16 :: "HoldingRegister \<Rightarrow> nat \<Rightarrow> u16 option" where
  "getUint16 reg i = (if i < length reg then Some (reg ! i) else None)"

definition setUint16 :: "HoldingRegister \<Rightarrow> nat \<Rightarrow> u16 \<Rightarrow> HoldingRegister option" where
  "setUint16 reg i v = (if i < length reg then Some (reg[i := v]) else None)"

section \<open>The connection\<close>

text \<open>
  Modelled from the spec: the transport behind \<open>SimpleConnection\<close>, whose
  \<open>read\<close> and \<open>write\<close> are pure virtual. The spec treats it as a byte channel
  with blocking reads and writes. \<open>pending\<close> holds the chunks the transport
  will hand over, one per call of \<open>read\<close> (a longer chunk is handed over in
  pieces); an empty chunk, or no chunk at all, is a read that returns 0 because
  the peer closed the stream. \<open>sent\<close> collects the buffers passed to \<open>write\<close>.
\<close>

record connection =
  pending :: "byte list list"
  sent :: "byte list list"

definition read_conn :: "connection \<Rightarrow> nat \<Rightarrow> int \<times> byte list \<times> connection" where
  "read_conn conn n =
     (case pending conn of
        [] \<Rightarrow> (0, [], conn)
      | c # cs \<Rightarrow>
          (int (length (take n c)), take n c,
           conn\<lparr>pending := (if drop n c = [] then cs else drop n c # cs)\<rparr>))"

definition write_conn :: "connection \<Rightarrow> byte list \<Rightarrow> connection" where
  "write_conn conn data = conn\<lparr>sent := sent conn @ [data]\<rparr>"

section \<open>The request dispatcher\<close>

text \<open>\<^verbatim>\<open>const int8_t headerSize = 6\<close>, promoted to \<open>int\<close> wherever it is used.\<close>

definition headerSize :: cint where
  "headerSize = 6"

definition sendException :: "connection \<Rightarrow> byte \<Rightarrow> byte \<Rightarrow> byte \<Rightarrow> connection" where
  "sendException connection deviceAddress functionCode exceptionCode =
     write_conn connection [deviceAddress, functionCode OR 0x80, exceptionCode]"

text \<open>
  The condition \<^verbatim>\<open>startAddress + quantity > reg.size()\<close>: both operands are
  promoted to \<open>int\<close>, added there, and the sum is converted to \<open>size_t\<close>.
\<close>

definition exceeds_store :: "u16 \<Rightarrow> u16 \<Rightarrow> HoldingRegister \<Rightarrow> bool" where
  "exceeds_store startAddress quantity reg \<longleftrightarrow>
     reg_size reg < int_to_size_t ((ucast startAddress :: cint) + ucast quantity)"

text \<open>The loop of case \<open>0x03\<close> that appends the register values to the response.\<close>

function append_registers ::
  "HoldingRegister \<Rightarrow> u16 \<Rightarrow> u16 \<Rightarrow> u16 \<Rightarrow> byte list \<Rightarrow> byte list option" where
  "append_registers reg startAddress quantity i response =
     (if i < quantity then
        do {
          regValue \<leftarrow> getUint16 reg (int_to_size_t ((ucast startAddress :: cint) + ucast i));
          append_registers reg startAddress quantity (i + 1)
            (response @ [high_byte regValue, low_byte regValue])
        }
      else Some response)"
  by pat_completeness auto
termination
proof (relation "measure (\<lambda>(reg, startAddress, quantity, i, response). unat quantity - unat i)",
    goal_cases)
  case 1
  show ?case by simp
next
  case (2 reg startAddress quantity i response regValue)
  from \<open>i < quantity\<close> have lt: "unat i < unat quantity"
    by (simp add: word_less_nat_alt)
  have "unat quantity < 65536"
    using unsigned_less [of quantity, where ?'a = nat] by simp
  with lt have "unat (i + 1) = Suc (unat i)"
    by (simp add: unat_word_ariths)
  with lt show ?case by simp
qed

declare append_registers.simps [simp del]

text \<open>Case \<open>0x03\<close>, Read Holding Registers.\<close>

definition case_0x03 ::
  "connection \<Rightarrow> byte list \<Rightarrow> HoldingRegister \<Rightarrow> byte \<Rightarrow> u16 \<Rightarrow> u16
     \<Rightarrow> (connection \<times> HoldingRegister) option" where
  "case_0x03 conn request reg functionCode startAddress quantity =
     (if exceeds_store startAddress quantity reg then
        do {
          deviceAddress \<leftarrow> at_vec request (int_to_size_t (headerSize + 0));
          Some (sendException conn deviceAddress functionCode 0x02, reg)
        }
      else
        do {
          header \<leftarrow> prefix_vec request 4;
          let length = (ucast ((3 :: cint) + (ucast quantity * 2)) :: u16);
          unitId \<leftarrow> at_vec request 6;
          let response = header @ [high_byte length, low_byte length, unitId,
            functionCode, ucast ((ucast quantity :: cint) * 2)];
          response' \<leftarrow> append_registers reg startAddress quantity 0 response;
          Some (write_conn conn response', reg)
        })"

text \<open>Case \<open>0x06\<close>, Write Single Register.\<close>

definition case_0x06 ::
  "connection \<Rightarrow> byte list \<Rightarrow> HoldingRegister \<Rightarrow> byte \<Rightarrow> u16
     \<Rightarrow> (connection \<times> HoldingRegister) option" where
  "case_0x06 conn request reg functionCode startAddress =
     (if reg_size reg \<le> int_to_size_t (ucast startAddress) then
        do {
          deviceAddress \<leftarrow> at_vec request (int_to_size_t (headerSize + 0));
          Some (sendException conn deviceAddress functionCode 0x02, reg)
        }
      else
        do {
          hi \<leftarrow> at_vec request (int_to_size_t (headerSize + 4));
          lo \<leftarrow> at_vec request (int_to_size_t (headerSize + 5));
          let valueToWrite = u16_of_bytes hi lo;
          reg' \<leftarrow> setUint16 reg (int_to_size_t (ucast startAddress)) valueToWrite;
          let response = request;
          Some (write_conn conn response, reg')
        })"

text \<open>The loop of case \<open>0x10\<close> that writes the data to the registers.\<close>

function write_registers ::
  "byte list \<Rightarrow> HoldingRegister \<Rightarrow> u16 \<Rightarrow> u16 \<Rightarrow> u16 \<Rightarrow> HoldingRegister option" where
  "write_registers request reg startAddress quantity i =
     (if i < quantity then
        do {
          hi \<leftarrow> at_vec request (int_to_size_t (headerSize + 7 + (ucast i * 2)));
          lo \<leftarrow> at_vec request (int_to_size_t (headerSize + 8 + (ucast i * 2)));
          let regValue = u16_of_bytes hi lo;
          reg' \<leftarrow> setUint16 reg (int_to_size_t ((ucast startAddress :: cint) + ucast i)) regValue;
          write_registers request reg' startAddress quantity (i + 1)
        }
      else Some reg)"
  by pat_completeness auto
termination
proof (relation "measure (\<lambda>(request, reg, startAddress, quantity, i). unat quantity - unat i)",
    goal_cases)
  case 1
  show ?case by simp
next
  case (2 request reg startAddress quantity i hi lo regValue reg')
  from \<open>i < quantity\<close> have lt: "unat i < unat quantity"
    by (simp add: word_less_nat_alt)
  have "unat quantity < 65536"
    using unsigned_less [of quantity, where ?'a = nat] by simp
  with lt have "unat (i + 1) = Suc (unat i)"
    by (simp add: unat_word_ariths)
  with lt show ?case by simp
qed

declare write_registers.simps [simp del]

text \<open>
  Case \<open>0x10\<close>, Write Multiple Registers. The case extracts the start address and
  the quantity once more, from the same bytes.
\<close>

definition case_0x10 ::
  "connection \<Rightarrow> byte list \<Rightarrow> HoldingRegister \<Rightarrow> byte
     \<Rightarrow> (connection \<times> HoldingRegister) option" where
  "case_0x10 conn request reg functionCode =
     do {
       sa_hi \<leftarrow> at_vec request (int_to_size_t (headerSize + 2));
       sa_lo \<leftarrow> at_vec request (int_to_size_t (headerSize + 3));
       let startAddress = u16_of_bytes sa_hi sa_lo;
       q_hi \<leftarrow> at_vec request (int_to_size_t (headerSize + 4));
       q_lo \<leftarrow> at_vec request (int_to_size_t (headerSize + 5));
       let quantity = u16_of_bytes q_hi q_lo;
       byteCount \<leftarrow> at_vec request (int_to_size_t (headerSize + 6));
       if exceeds_store startAddress quantity reg
          \<or> (ucast byteCount :: cint) \<noteq> ucast quantity * 2
       then
         do {
           deviceAddress \<leftarrow> at_vec request (int_to_size_t (headerSize + 0));
           Some (sendException conn deviceAddress functionCode 0x02, reg)
         }
       else
         do {
           reg' \<leftarrow> write_registers request reg startAddress quantity 0;
           header \<leftarrow> prefix_vec request 6;
           unitId \<leftarrow> at_vec request (int_to_size_t (headerSize + 1));
           let response = header @ [unitId, functionCode,
             high_byte startAddress, low_byte startAddress,
             high_byte quantity, low_byte quantity];
           Some (write_conn conn response, reg')
         }
     }"

text \<open>
  \<open>processRequest\<close>: the function code, the start address and the quantity are
  read from the frame before the \<open>switch\<close>, whatever the function code is.
\<close>

definition processRequest ::
  "connection \<Rightarrow> byte list \<Rightarrow> HoldingRegister \<Rightarrow> (connection \<times> HoldingRegister) option" where
  "processRequest conn request reg =
     do {
       functionCode \<leftarrow> at_vec request (int_to_size_t (headerSize + 1));
       sa_hi \<leftarrow> at_vec request (int_to_size_t (headerSize + 2));
       sa_lo \<leftarrow> at_vec request (int_to_size_t (headerSize + 3));
       let startAddress = u16_of_bytes sa_hi sa_lo;
       q_hi \<leftarrow> at_vec request (int_to_size_t (headerSize + 4));
       q_lo \<leftarrow> at_vec request (int_to_size_t (headerSize + 5));
       let quantity = u16_of_bytes q_hi q_lo;
       if functionCode = 0x03 then
         case_0x03 conn request reg functionCode startAddress quantity
       else if functionCode = 0x06 then
         case_0x06 conn request reg functionCode startAddress
       else if functionCode = 0x10 then
         case_0x10 conn request reg functionCode
       else
         do {
           deviceAddress \<leftarrow> at_vec request 0;
           Some (sendException conn deviceAddress functionCode 0x01, reg)
         }
     }"

section \<open>Exact reads\<close>

text \<open>
  \<open>readExact(buffer, size)\<close> of \<open>SimpleConnection\<close>: the bytes of each partial
  read are stored at \<open>buffer + totalBytesReceived\<close>; what a failed call has
  already stored stays in the buffer.
\<close>

definition store_at :: "byte list \<Rightarrow> nat \<Rightarrow> byte list \<Rightarrow> byte list" where
  "store_at buffer offset data =
     take offset buffer @ data @ drop (offset + length data) buffer"

function readExact_loop ::
  "connection \<Rightarrow> byte list \<Rightarrow> nat \<Rightarrow> nat \<Rightarrow> bool \<times> byte list \<times> connection" where
  "readExact_loop conn buffer bufsize totalBytesReceived =
     (if totalBytesReceived < bufsize then
        (let remainingBytes = bufsize - totalBytesReceived in
         case read_conn conn remainingBytes of
           (bytesRead, data, conn') \<Rightarrow>
             if bytesRead \<le> 0 then (False, buffer, conn')
             else readExact_loop conn' (store_at buffer totalBytesReceived data) bufsize
                    (totalBytesReceived + nat bytesRead))
      else (totalBytesReceived = bufsize, buffer, conn))"
  by pat_completeness auto
termination
  by (relation "measure (\<lambda>(conn, buffer, bufsize, totalBytesReceived). bufsize - totalBytesReceived)")
    auto

declare readExact_loop.simps [simp del]

definition readExact :: "connection \<Rightarrow> byte list \<Rightarrow> nat \<Rightarrow> bool \<times> byte list \<times> connection" where
  "readExact conn buffer bufsize = readExact_loop conn buffer bufsize 0"

section \<open>The session\<close>

text \<open>
  The loop of \<open>clientThread\<close> ends when the stop flag is set or the read of the
  prefix fails; each round that goes on has taken the six bytes of a prefix
  from the transport, so the bytes still to come are its measure.
\<close>

definition pending_bytes :: "connection \<Rightarrow> nat" where
  "pending_bytes conn = sum_list (map length (pending conn))"

lemma read_conn_pending:
  "read_conn conn n = (k, d, conn') \<Longrightarrow>
     pending_bytes conn' + nat k = pending_bytes conn \<and> 0 \<le> k"
  by (auto simp: read_conn_def pending_bytes_def split: list.splits if_splits)

lemma readExact_loop_pending:
  "readExact_loop conn buffer bufsize tot = (ok, buffer', conn') \<Longrightarrow>
     pending_bytes conn' \<le> pending_bytes conn \<and>
     (ok \<longrightarrow> pending_bytes conn' + (bufsize - tot) \<le> pending_bytes conn)"
proof (induction conn buffer bufsize tot rule: readExact_loop.induct)
  case (1 conn buffer bufsize tot)
  note eq = "1.prems" [unfolded readExact_loop.simps [of conn buffer bufsize tot]]
  show ?case
  proof (cases "tot < bufsize")
    case False
    with eq show ?thesis by auto
  next
    case True
    obtain k d c1 where r: "read_conn conn (bufsize - tot) = (k, d, c1)"
      by (cases "read_conn conn (bufsize - tot)") auto
    note p = read_conn_pending [OF r]
    show ?thesis
    proof (cases "k \<le> 0")
      case True
      with \<open>tot < bufsize\<close> r eq p show ?thesis by auto
    next
      case False
      with \<open>tot < bufsize\<close> r eq
      have "readExact_loop c1 (store_at buffer tot d) bufsize (tot + nat k) = (ok, buffer', conn')"
        by simp
      from "1.IH" [OF \<open>tot < bufsize\<close> refl r [symmetric] refl False this] p
      show ?thesis by auto
    qed
  qed
qed

lemma pending_write_conn: "pending (write_conn conn data) = pending conn"
  by (simp add: write_conn_def)

lemma pending_sendException: "pending (sendException conn a b c) = pending conn"
  by (simp add: sendException_def pending_write_conn)

lemma case_0x03_pending:
  "case_0x03 conn request reg fc sa q = Some (conn', reg') \<Longrightarrow> pending conn' = pending conn"
  unfolding case_0x03_def Let_def
  by (auto simp: pending_write_conn pending_sendException bind_eq_Some_conv split: if_splits)

lemma case_0x06_pending:
  "case_0x06 conn request reg fc sa = Some (conn', reg') \<Longrightarrow> pending conn' = pending conn"
  unfolding case_0x06_def Let_def
  by (auto simp: pending_write_conn pending_sendException bind_eq_Some_conv split: if_splits)

lemma case_0x10_pending:
  "case_0x10 conn request reg fc = Some (conn', reg') \<Longrightarrow> pending conn' = pending conn"
  unfolding case_0x10_def Let_def
  by (auto simp: pending_write_conn pending_sendException bind_eq_Some_conv split: if_splits)

lemma processRequest_pending:
  "processRequest conn request reg = Some (conn', reg') \<Longrightarrow> pending conn' = pending conn"
  unfolding processRequest_def Let_def
  by (auto simp: pending_sendException bind_eq_Some_conv
      case_0x03_pending case_0x06_pending case_0x10_pending split: if_splits)

text \<open>
  The loop of \<open>clientThread\<close>. \<open>stop n\<close> is the value of the atomic flag
  \<open>stop_\<close> at the \<open>n\<close>-th test of the loop condition. \<open>mbap\<close> is the
  six-byte array and \<open>request\<close> the vector, both declared outside the loop and
  so carried from one round to the next. The result of the second \<open>readExact\<close>
  is not looked at. \<open>None\<close> is undefined behaviour inside \<open>processRequest\<close>.
\<close>

function clientThread_loop ::
  "(nat \<Rightarrow> bool) \<Rightarrow> nat \<Rightarrow> connection \<Rightarrow> byte list \<Rightarrow> byte list \<Rightarrow> HoldingRegister
     \<Rightarrow> (connection \<times> HoldingRegister) option" where
  "clientThread_loop stop n conn mbap request reg =
     (if stop n then Some (conn, reg)
      else
        (case readExact conn mbap 6 of
           (ok, mbap', conn1) \<Rightarrow>
             if \<not> ok then Some (conn1, reg)
             else
               (let length = u16_of_bytes (mbap' ! 4) (mbap' ! 5);
                    request1 = resize_vec request (unat length)
                in (case readExact conn1 request1 (unat length) of
                      (ignored, request2, conn2) \<Rightarrow>
                        (let request3 = mbap' @ request2
                         in (case processRequest conn2 request3 reg of
                               None \<Rightarrow> None
                             | Some (conn3, reg') \<Rightarrow>
                                 clientThread_loop stop (n + 1) conn3 mbap' request3 reg'))))))"
  by pat_completeness auto
termination
proof (relation "measure (\<lambda>(stop, n, conn, mbap, request, reg). pending_bytes conn)", goal_cases)
  case 1
  show ?case by simp
next
  case (2 stop n conn mbap request reg ok y mbap' conn1 len request1 ign yb request2 conn2
      request3 x2 conn3 reg')
  then have r1: "readExact_loop conn mbap 6 0 = (True, mbap', conn1)"
    and r2: "readExact_loop conn1 request1 (unat len) 0 = (ign, request2, conn2)"
    and p: "processRequest conn2 request3 reg = Some (conn3, reg')"
    by (simp_all add: readExact_def)
  from readExact_loop_pending [OF r1] have "pending_bytes conn1 + 6 \<le> pending_bytes conn"
    by simp
  moreover from readExact_loop_pending [OF r2] have "pending_bytes conn2 \<le> pending_bytes conn1"
    by simp
  moreover from processRequest_pending [OF p] have "pending_bytes conn3 = pending_bytes conn2"
    by (simp add: pending_bytes_def)
  ultimately show ?case
    by simp
qed

declare clientThread_loop.simps [simp del]

text \<open>\<open>clientThread\<close>: the array starts zeroed and the vector empty.\<close>

definition clientThread ::
  "(nat \<Rightarrow> bool) \<Rightarrow> connection \<Rightarrow> HoldingRegister \<Rightarrow> (connection \<times> HoldingRegister) option" where
  "clientThread stop conn reg = clientThread_loop stop 0 conn (replicate 6 0) [] reg"

section \<open>The fields of a frame\<close>

text \<open>
  The start address and the quantity (for \<open>0x06\<close>, the value) as
  \<open>processRequest\<close> extracts them, from bytes 8 to 11 of the frame.
\<close>

definition frame_startAddress :: "byte list \<Rightarrow> u16" where
  "frame_startAddress request = u16_of_bytes (request ! 8) (request ! 9)"

definition frame_quantity :: "byte list \<Rightarrow> u16" where
  "frame_quantity request = u16_of_bytes (request ! 10) (request ! 11)"

text \<open>The bytes of a sequence of registers, each big-endian, as the loop of case
  \<open>0x03\<close> appends them.\<close>

definition register_bytes :: "u16 list \<Rightarrow> byte list" where
  "register_bytes regs = concat (map (\<lambda>v. [high_byte v, low_byte v]) regs)"

text \<open>
  The \<open>j\<close>-th register value of a \<open>0x10\<close> frame, from bytes \<open>13 + 2 * j\<close> and
  \<open>14 + 2 * j\<close>, and the store after the values with the indices \<open>js\<close> have
  been written from \<open>sa\<close> on, in that order.
\<close>

definition frame_register :: "byte list \<Rightarrow> nat \<Rightarrow> u16" where
  "frame_register request j = u16_of_bytes (request ! (13 + 2 * j)) (request ! (14 + 2 * j))"

definition store_registers :: "byte list \<Rightarrow> nat \<Rightarrow> nat list \<Rightarrow> HoldingRegister \<Rightarrow> HoldingRegister" where
  "store_registers request sa js reg = foldl (\<lambda>r j. r[sa + j := frame_register request j]) reg js"

section \<open>Integer conversions, bytes and vector reads\<close>

lemma unat_u16_bound: "unat (a::u16) < 65536"
  using unsigned_less [of a, where ?'a = nat] by simp

lemma unat_byte_bound: "unat (a::byte) < 256"
  using unsigned_less [of a, where ?'a = nat] by simp

lemma unat_ucast_16_32: "unat (ucast (a::u16) :: cint) = unat a"
  using unat_u16_bound [of a]
  by (simp add: unsigned_ucast_eq take_bit_nat_eq_self_iff)

lemma unat_ucast_8_32: "unat (ucast (a::byte) :: cint) = unat a"
  using unat_byte_bound [of a]
  by (simp add: unsigned_ucast_eq take_bit_nat_eq_self_iff)

lemma int_to_size_t_nonneg:
  assumes "unat x < 2 ^ 31"
  shows "int_to_size_t x = unat x"
proof -
  from assms have "int (unat x) < int (2 ^ 31)"
    by (simp only: of_nat_less_iff)
  then have u: "uint x < 2 ^ 31"
    by simp
  have "sint x = uint x"
    unfolding sint_uint
  proof (rule signed_take_bit_int_eq_self)
    show "- (2 ^ (LENGTH(32) - Suc 0)) \<le> uint x"
      by (rule order_trans [of _ 0]) simp_all
    show "uint x < 2 ^ (LENGTH(32) - Suc 0)"
      using u by simp
  qed
  then have "(scast x :: 64 word) = ucast x"
    by (simp add: scast_eq)
  moreover have "unat (ucast x :: 64 word) = unat x"
    using assms by (simp add: unsigned_ucast_eq take_bit_nat_eq_self_iff)
  ultimately show ?thesis
    by (simp add: int_to_size_t_def)
qed

lemma unat_sum_u16: "unat ((ucast (a::u16) :: cint) + ucast (b::u16)) = unat a + unat b"
  using unat_u16_bound [of a] unat_u16_bound [of b]
  by (simp add: unat_word_ariths unat_ucast_16_32)

lemma int_to_size_t_sum: "int_to_size_t ((ucast (a::u16) :: cint) + ucast (b::u16)) = unat a + unat b"
  using unat_u16_bound [of a] unat_u16_bound [of b]
  by (simp add: int_to_size_t_nonneg unat_sum_u16)

lemma int_to_size_t_ucast: "int_to_size_t (ucast (a::u16)) = unat a"
  using unat_u16_bound [of a]
  by (simp add: int_to_size_t_nonneg unat_ucast_16_32)

lemma unat_twice_u16: "unat ((ucast (q::u16) :: cint) * 2) = 2 * unat q"
  using unat_u16_bound [of q]
  by (simp add: unat_word_ariths unat_ucast_16_32)

lemma idx_header:
  "int_to_size_t headerSize = 6"
  "int_to_size_t (headerSize + 0) = 6"
  "int_to_size_t (headerSize + 1) = 7"
  "int_to_size_t (headerSize + 2) = 8"
  "int_to_size_t (headerSize + 3) = 9"
  "int_to_size_t (headerSize + 4) = 10"
  "int_to_size_t (headerSize + 5) = 11"
  "int_to_size_t (headerSize + 6) = 12"
  by (simp_all add: headerSize_def int_to_size_t_nonneg)

lemma idx_data:
  "int_to_size_t (headerSize + 7 + (ucast (i::u16) * 2)) = 13 + 2 * unat i"
  "int_to_size_t (headerSize + 8 + (ucast (i::u16) * 2)) = 14 + 2 * unat i"
proof -
  have a: "unat ((13 :: cint) + ucast i * 2) = 13 + 2 * unat i"
    using unat_u16_bound [of i]
    by (simp add: unat_word_ariths unat_ucast_16_32)
  have b: "unat ((14 :: cint) + ucast i * 2) = 14 + 2 * unat i"
    using unat_u16_bound [of i]
    by (simp add: unat_word_ariths unat_ucast_16_32)
  show "int_to_size_t (headerSize + 7 + (ucast (i::u16) * 2)) = 13 + 2 * unat i"
    using unat_u16_bound [of i] by (simp add: headerSize_def int_to_size_t_nonneg a)
  show "int_to_size_t (headerSize + 8 + (ucast (i::u16) * 2)) = 14 + 2 * unat i"
    using unat_u16_bound [of i] by (simp add: headerSize_def int_to_size_t_nonneg b)
qed

lemma exceeds_store_nat:
  "exceeds_store startAddress quantity reg \<longleftrightarrow> length reg < unat startAddress + unat quantity"
  by (simp add: exceeds_store_def reg_size_def int_to_size_t_sum)

lemma byteCount_mismatch_nat:
  "(ucast (byteCount::byte) :: cint) \<noteq> ucast (quantity::u16) * 2 \<longleftrightarrow> unat byteCount \<noteq> 2 * unat quantity"
proof -
  have "(ucast byteCount :: cint) = ucast quantity * 2 \<longleftrightarrow>
      unat (ucast byteCount :: cint) = unat ((ucast quantity :: cint) * 2)"
    by (simp only: word_unat_eq_iff)
  then show ?thesis
    by (simp add: unat_ucast_8_32 unat_twice_u16)
qed

lemma mask_0xFF: "(0xFF :: cint) = mask 8"
  by (simp add: mask_eq_exp_minus_1)

lemma u16_of_high_low: "u16_of_bytes (high_byte v) (low_byte v) = v"
  unfolding u16_of_bytes_def high_byte_def low_byte_def mask_0xFF
  by (rule bit_word_eqI) (auto simp add: bit_simps)

lemma high_byte_u16_of_bytes: "high_byte (u16_of_bytes a b) = a"
  unfolding u16_of_bytes_def high_byte_def
  by (rule bit_word_eqI) (auto simp add: bit_simps dest: bit_imp_le_length)

lemma low_byte_u16_of_bytes: "low_byte (u16_of_bytes a b) = b"
  unfolding u16_of_bytes_def low_byte_def mask_0xFF
  by (rule bit_word_eqI) (auto simp add: bit_simps)

lemma processRequest_fields:
  assumes "12 \<le> length request"
  shows "processRequest conn request reg =
    (if request ! 7 = 0x03 then
       case_0x03 conn request reg (request ! 7) (frame_startAddress request) (frame_quantity request)
     else if request ! 7 = 0x06 then
       case_0x06 conn request reg (request ! 7) (frame_startAddress request)
     else if request ! 7 = 0x10 then
       case_0x10 conn request reg (request ! 7)
     else Some (sendException conn (request ! 0) (request ! 7) 0x01, reg))"
proof -
  from assms have "request \<noteq> []"
    by auto
  with assms show ?thesis
    by (simp add: processRequest_def idx_header at_vec_def frame_startAddress_def
        frame_quantity_def Let_def)
qed

lemma case_0x03_reject:
  assumes "7 \<le> length request" and "length reg < unat sa + unat q"
  shows "case_0x03 conn request reg fc sa q = Some (sendException conn (request ! 6) fc 0x02, reg)"
  using assms by (simp add: case_0x03_def exceeds_store_nat idx_header at_vec_def)

lemma case_0x06_reject:
  assumes "7 \<le> length request" and "length reg \<le> unat sa"
  shows "case_0x06 conn request reg fc sa = Some (sendException conn (request ! 6) fc 0x02, reg)"
  using assms by (simp add: case_0x06_def reg_size_def int_to_size_t_ucast idx_header at_vec_def)

lemma case_0x06_accept:
  assumes "12 \<le> length request" and "unat sa < length reg"
  shows "case_0x06 conn request reg fc sa =
    Some (write_conn conn request, reg[unat sa := frame_quantity request])"
  using assms
  by (simp add: case_0x06_def reg_size_def int_to_size_t_ucast idx_header at_vec_def
      setUint16_def frame_quantity_def)

lemma case_0x10_reject:
  assumes "13 \<le> length request"
    and "length reg < unat (frame_startAddress request) + unat (frame_quantity request)
      \<or> unat (request ! 12) \<noteq> 2 * unat (frame_quantity request)"
  shows "case_0x10 conn request reg fc = Some (sendException conn (request ! 6) fc 0x02, reg)"
  using assms
  by (auto simp add: case_0x10_def exceeds_store_nat byteCount_mismatch_nat idx_header at_vec_def
      frame_startAddress_def frame_quantity_def Let_def)

section \<open>The loop of case \<open>0x03\<close>\<close>

lemma register_bytes_simps:
  "register_bytes [] = []"
  "register_bytes (v # vs) = high_byte v # low_byte v # register_bytes vs"
  by (simp_all add: register_bytes_def)

lemma length_register_bytes: "length (register_bytes regs) = 2 * length regs"
  by (induction regs) (simp_all add: register_bytes_simps)

lemma register_bytes_nth:
  "i < length regs \<Longrightarrow>
     register_bytes regs ! (2 * i) = high_byte (regs ! i)
     \<and> register_bytes regs ! (2 * i + 1) = low_byte (regs ! i)"
proof (induction regs arbitrary: i)
  case Nil
  then show ?case by simp
next
  case (Cons v vs)
  show ?case
  proof (cases i)
    case 0
    then show ?thesis by (simp add: register_bytes_simps)
  next
    case (Suc j)
    with Cons.prems have "j < length vs" by simp
    from Cons.IH [OF this] Suc show ?thesis
      by (simp add: register_bytes_simps)
  qed
qed

lemma unat_Suc_u16: "(i::u16) < q \<Longrightarrow> unat (i + 1) = Suc (unat i)"
proof -
  assume "i < q"
  then have "unat i < unat q"
    by (simp add: word_less_nat_alt)
  with unat_u16_bound [of q] show ?thesis
    by (simp add: unat_word_ariths)
qed

lemma append_registers_ok:
  assumes "unat sa + unat q \<le> length reg" and "unat i \<le> unat q"
  shows "append_registers reg sa q i response =
    Some (response @ register_bytes (take (unat q - unat i) (drop (unat sa + unat i) reg)))"
  using assms
proof (induction reg sa q i response rule: append_registers.induct)
  case (1 reg sa q i response)
  note bound = "1.prems"(1)
  show ?case
  proof (cases "i < q")
    case False
    with "1.prems"(2) have "unat i = unat q"
      by (simp add: word_less_nat_alt)
    with False show ?thesis
      by (simp add: append_registers.simps [of reg sa q i] register_bytes_simps)
  next
    case True
    then have lt: "unat i < unat q"
      by (simp add: word_less_nat_alt)
    let ?n = "unat sa + unat i"
    from lt bound have inb: "?n < length reg"
      by simp
    then have g: "getUint16 reg (int_to_size_t ((ucast sa :: cint) + ucast i)) = Some (reg ! ?n)"
      by (simp add: getUint16_def int_to_size_t_sum)
    have s: "unat (i + 1) = Suc (unat i)"
      using True by (rule unat_Suc_u16)
    with lt have le: "unat (i + 1) \<le> unat q"
      by simp
    have "take (unat q - unat i) (drop ?n reg)
        = reg ! ?n # take (unat q - unat (i + 1)) (drop (unat sa + unat (i + 1)) reg)"
    proof -
      from lt have d: "unat q - unat i = Suc (unat q - Suc (unat i))"
        by simp
      from inb have "drop ?n reg = reg ! ?n # drop (Suc ?n) reg"
        by (simp add: Cons_nth_drop_Suc)
      then show ?thesis
        by (simp add: d s)
    qed
    with "1.IH" [OF True g bound le] True g show ?thesis
      by (simp add: append_registers.simps [of reg sa q i] register_bytes_simps)
  qed
qed

lemma unat_length_field:
  "unat (ucast ((3 :: cint) + (ucast (q::u16) * 2)) :: u16) = (3 + unat q * 2) mod 65536"
proof -
  have "unat ((3 :: cint) + (ucast q * 2)) = 3 + unat q * 2"
    using unat_u16_bound [of q]
    by (simp add: unat_word_ariths unat_ucast_16_32)
  then show ?thesis
    by (simp add: unsigned_ucast_eq take_bit_eq_mod)
qed

lemma unat_byte_count:
  "unat (ucast ((ucast (q::u16) :: cint) * 2) :: byte) = (unat q * 2) mod 256"
  by (simp add: unsigned_ucast_eq take_bit_eq_mod unat_twice_u16 mult.commute)

lemma case_0x03_accept:
  assumes "7 \<le> length request" and "unat sa + unat q \<le> length reg"
  shows "case_0x03 conn request reg fc sa q =
    Some (write_conn conn
      (take 4 request
        @ [high_byte (ucast ((3 :: cint) + (ucast q * 2))),
           low_byte (ucast ((3 :: cint) + (ucast q * 2))),
           request ! 6, fc, ucast ((ucast q :: cint) * 2)]
        @ register_bytes (take (unat q) (drop (unat sa) reg))), reg)"
  using assms append_registers_ok [of sa q reg 0]
  by (simp add: case_0x03_def exceeds_store_nat at_vec_def prefix_vec_def Let_def)

lemma processRequest_0x03_accept:
  assumes "12 \<le> length request" and "request ! 7 = 0x03"
    and "unat (frame_startAddress request) + unat (frame_quantity request) \<le> length reg"
  shows "processRequest conn request reg =
    Some (write_conn conn
      (take 4 request
        @ [high_byte (ucast ((3 :: cint) + (ucast (frame_quantity request) * 2))),
           low_byte (ucast ((3 :: cint) + (ucast (frame_quantity request) * 2))),
           request ! 6, 0x03, ucast ((ucast (frame_quantity request) :: cint) * 2)]
        @ register_bytes (take (unat (frame_quantity request))
            (drop (unat (frame_startAddress request)) reg))), reg)"
  using assms by (simp add: processRequest_fields case_0x03_accept)

lemma processRequest_0x06_accept:
  assumes "12 \<le> length request" and "request ! 7 = 0x06"
    and "unat (frame_startAddress request) < length reg"
  shows "processRequest conn request reg =
    Some (write_conn conn request,
          reg[unat (frame_startAddress request) := frame_quantity request])"
  using assms by (simp add: processRequest_fields case_0x06_accept)

section \<open>The loop of case \<open>0x10\<close>\<close>

lemma store_registers_simps:
  "store_registers request sa [] reg = reg"
  "store_registers request sa (j # js) reg
     = store_registers request sa js (reg[sa + j := frame_register request j])"
  by (simp_all add: store_registers_def)

lemma length_store_registers: "length (store_registers request sa js reg) = length reg"
  by (induction js arbitrary: reg) (simp_all add: store_registers_simps)

lemma store_registers_other:
  "k \<notin> (\<lambda>j. sa + j) ` set js \<Longrightarrow> store_registers request sa js reg ! k = reg ! k"
  by (induction js arbitrary: reg) (auto simp: store_registers_simps)

lemma store_registers_written:
  "distinct js \<Longrightarrow> j \<in> set js \<Longrightarrow> sa + j < length reg \<Longrightarrow>
     store_registers request sa js reg ! (sa + j) = frame_register request j"
proof (induction js arbitrary: reg)
  case Nil
  then show ?case by simp
next
  case (Cons a js)
  show ?case
  proof (cases "j = a")
    case True
    with Cons.prems have "sa + j \<notin> (\<lambda>j. sa + j) ` set js"
      by auto
    with True Cons.prems(3) show ?thesis
      by (simp add: store_registers_simps store_registers_other)
  next
    case False
    with Cons show ?thesis
      by (simp add: store_registers_simps)
  qed
qed

lemma write_registers_ok:
  assumes "unat sa + unat q \<le> length reg" and "13 + 2 * unat q \<le> length request"
    and "unat i \<le> unat q"
  shows "write_registers request reg sa q i =
    Some (store_registers request (unat sa) [unat i..<unat q] reg)"
  using assms
proof (induction request reg sa q i rule: write_registers.induct)
  case (1 request reg sa q i)
  show ?case
  proof (cases "i < q")
    case False
    with "1.prems"(3) have "unat i = unat q"
      by (simp add: word_less_nat_alt)
    with False show ?thesis
      by (simp add: write_registers.simps [of request reg sa q i] store_registers_simps)
  next
    case True
    then have lt: "unat i < unat q"
      by (simp add: word_less_nat_alt)
    let ?v = "u16_of_bytes (request ! (13 + 2 * unat i)) (request ! (14 + 2 * unat i))"
    let ?reg' = "reg[unat sa + unat i := ?v]"
    from lt "1.prems"(2)
    have hi: "at_vec request (int_to_size_t (headerSize + 7 + (ucast i * 2)))
        = Some (request ! (13 + 2 * unat i))"
      and lo: "at_vec request (int_to_size_t (headerSize + 8 + (ucast i * 2)))
        = Some (request ! (14 + 2 * unat i))"
      by (simp_all add: idx_data at_vec_def)
    from lt "1.prems"(1)
    have st: "setUint16 reg (int_to_size_t ((ucast sa :: cint) + ucast i)) ?v = Some ?reg'"
      by (simp add: setUint16_def int_to_size_t_sum)
    have s: "unat (i + 1) = Suc (unat i)"
      using True by (rule unat_Suc_u16)
    with lt have le: "unat (i + 1) \<le> unat q"
      by simp
    from "1.prems"(1) have b': "unat sa + unat q \<le> length ?reg'"
      by simp
    from lt have upt: "[unat i..<unat q] = unat i # [unat (i + 1)..<unat q]"
      by (simp add: upt_conv_Cons s)
    from "1.IH" [OF True hi lo refl st b' "1.prems"(2) le] True hi lo st show ?thesis
      by (simp add: write_registers.simps [of request reg sa q i] upt store_registers_simps
          frame_register_def)
  qed
qed

lemma case_0x10_accept:
  assumes "13 + 2 * unat (frame_quantity request) \<le> length request"
    and "unat (frame_startAddress request) + unat (frame_quantity request) \<le> length reg"
    and "unat (request ! 12) = 2 * unat (frame_quantity request)"
  shows "case_0x10 conn request reg fc =
    Some (write_conn conn
      (take 6 request @ [request ! 7, fc,
         high_byte (frame_startAddress request), low_byte (frame_startAddress request),
         high_byte (frame_quantity request), low_byte (frame_quantity request)]),
      store_registers request (unat (frame_startAddress request))
        [0..<unat (frame_quantity request)] reg)"
proof -
  from assms(2) have "\<not> exceeds_store (frame_startAddress request) (frame_quantity request) reg"
    by (simp add: exceeds_store_nat)
  moreover from assms(3) have "\<not> (ucast (request ! 12) :: cint) \<noteq> ucast (frame_quantity request) * 2"
    by (simp only: byteCount_mismatch_nat)
  moreover note write_registers_ok [OF assms(2,1), of 0]
  ultimately show ?thesis
    using assms(1)
    by (simp add: case_0x10_def idx_header at_vec_def prefix_vec_def Let_def
        frame_startAddress_def frame_quantity_def)
qed

lemma processRequest_0x10_accept:
  assumes "request ! 7 = 0x10"
    and "13 + 2 * unat (frame_quantity request) \<le> length request"
    and "unat (frame_startAddress request) + unat (frame_quantity request) \<le> reg_size reg"
    and "unat (request ! 12) = 2 * unat (frame_quantity request)"
  shows "processRequest conn request reg =
      Some (conn\<lparr>sent := sent conn @
        [take 6 request @ [request ! 7, 0x10,
           high_byte (frame_startAddress request), low_byte (frame_startAddress request),
           high_byte (frame_quantity request), low_byte (frame_quantity request)]]\<rparr>,
        store_registers request (unat (frame_startAddress request))
          [0..<unat (frame_quantity request)] reg)"
    and "length (store_registers request (unat (frame_startAddress request))
          [0..<unat (frame_quantity request)] reg) = length reg"
    and "\<forall>j < unat (frame_quantity request).
          store_registers request (unat (frame_startAddress request))
            [0..<unat (frame_quantity request)] reg ! (unat (frame_startAddress request) + j)
          = u16_of_bytes (request ! (13 + 2 * j)) (request ! (14 + 2 * j))"
    and "\<forall>k. k < unat (frame_startAddress request)
            \<or> unat (frame_startAddress request) + unat (frame_quantity request) \<le> k \<longrightarrow>
          store_registers request (unat (frame_startAddress request))
            [0..<unat (frame_quantity request)] reg ! k = reg ! k"
proof -
  from assms(2) have l: "12 \<le> length request"
    by simp
  from assms(3) have inb: "unat (frame_startAddress request) + unat (frame_quantity request) \<le> length reg"
    by (simp add: reg_size_def)
  show "processRequest conn request reg =
      Some (conn\<lparr>sent := sent conn @
        [take 6 request @ [request ! 7, 0x10,
           high_byte (frame_startAddress request), low_byte (frame_startAddress request),
           high_byte (frame_quantity request), low_byte (frame_quantity request)]]\<rparr>,
        store_registers request (unat (frame_startAddress request))
          [0..<unat (frame_quantity request)] reg)"
    using assms(1) l case_0x10_accept [OF assms(2) inb assms(4), of conn "request ! 7"]
    by (simp add: processRequest_fields write_conn_def)
  show "length (store_registers request (unat (frame_startAddress request))
          [0..<unat (frame_quantity request)] reg) = length reg"
    by (rule length_store_registers)
  show "\<forall>j < unat (frame_quantity request).
          store_registers request (unat (frame_startAddress request))
            [0..<unat (frame_quantity request)] reg ! (unat (frame_startAddress request) + j)
          = u16_of_bytes (request ! (13 + 2 * j)) (request ! (14 + 2 * j))"
    using inb by (auto simp: store_registers_written frame_register_def)
  show "\<forall>k. k < unat (frame_startAddress request)
            \<or> unat (frame_startAddress request) + unat (frame_quantity request) \<le> k \<longrightarrow>
          store_registers request (unat (frame_startAddress request))
            [0..<unat (frame_quantity request)] reg ! k = reg ! k"
    by (auto intro!: store_registers_other)
qed

section \<open>Unsupported function codes and short frames\<close>

lemma sendException_frame:
  "sendException conn deviceAddress functionCode exceptionCode =
     conn\<lparr>sent := sent conn @ [[deviceAddress, functionCode OR 0x80, exceptionCode]]\<rparr>"
  by (simp add: sendException_def write_conn_def)

lemma processRequest_default:
  assumes "12 \<le> length request"
    and "request ! 7 \<noteq> 0x03" and "request ! 7 \<noteq> 0x06" and "request ! 7 \<noteq> 0x10"
  shows "processRequest conn request reg =
    Some (conn\<lparr>sent := sent conn @ [[request ! 0, request ! 7 OR 0x80, 0x01]]\<rparr>, reg)"
  using assms by (simp add: processRequest_fields sendException_def write_conn_def)

lemma processRequest_short_frame:
  assumes "length request < 12"
  shows "processRequest conn request reg = None"
  using assms
  by (auto simp add: processRequest_def idx_header at_vec_def Let_def split: bind_splits)

section \<open>The two reads of a round of the session\<close>

lemma read_conn_sent: "read_conn conn n = (k, d, conn') \<Longrightarrow> sent conn' = sent conn"
  by (auto simp: read_conn_def split: list.splits)

lemma readExact_loop_sent:
  "readExact_loop conn buffer bufsize tot = (ok, buffer', conn') \<Longrightarrow> sent conn' = sent conn"
proof (induction conn buffer bufsize tot rule: readExact_loop.induct)
  case (1 conn buffer bufsize tot)
  note eq = "1.prems" [unfolded readExact_loop.simps [of conn buffer bufsize tot]]
  show ?case
  proof (cases "tot < bufsize")
    case False
    with eq show ?thesis by auto
  next
    case True
    obtain k d c1 where r: "read_conn conn (bufsize - tot) = (k, d, c1)"
      by (cases "read_conn conn (bufsize - tot)") auto
    note s = read_conn_sent [OF r]
    show ?thesis
    proof (cases "k \<le> 0")
      case True
      with \<open>tot < bufsize\<close> r eq s show ?thesis by auto
    next
      case False
      with \<open>tot < bufsize\<close> r eq
      have "readExact_loop c1 (store_at buffer tot d) bufsize (tot + nat k) = (ok, buffer', conn')"
        by simp
      from "1.IH" [OF \<open>tot < bufsize\<close> refl r [symmetric] refl False this] s
      show ?thesis by simp
    qed
  qed
qed

lemma clientThread_loop_prefix_fails:
  assumes "\<not> stop n" and "readExact conn mbap 6 = (False, mbap', conn1)"
  shows "clientThread_loop stop n conn mbap request reg = Some (conn1, reg)"
    and "sent conn1 = sent conn"
  using assms readExact_loop_sent [of conn mbap 6 0 False mbap' conn1]
  by (simp_all add: clientThread_loop.simps [of stop n conn mbap request reg] readExact_def)

lemma clientThread_loop_body_read_ignored:
  assumes "\<not> stop n" and "readExact conn mbap 6 = (True, mbap', conn1)"
    and "readExact conn1 (resize_vec request (unat (u16_of_bytes (mbap' ! 4) (mbap' ! 5))))
           (unat (u16_of_bytes (mbap' ! 4) (mbap' ! 5))) = (ok, request2, conn2)"
  shows "clientThread_loop stop n conn mbap request reg =
    (case processRequest conn2 (mbap' @ request2) reg of
       None \<Rightarrow> None
     | Some (conn3, reg') \<Rightarrow> clientThread_loop stop (n + 1) conn3 mbap' (mbap' @ request2) reg')"
  using assms
  by (simp add: clientThread_loop.simps [of stop n conn mbap request reg] Let_def)

section \<open>Rejected requests\<close>

text \<open>
  C4: for each supported function code, a request whose validation fails is
  answered with exception code \<open>0x02\<close> and the store is left as it was: for
  \<open>0x03\<close> when start address plus quantity exceeds the store size, for \<open>0x06\<close>
  when the start address is not below the store size, for \<open>0x10\<close> when start
  address plus quantity exceeds the store size or the byte count differs from
  twice the quantity. The frame holds the fields the validation reads: 12
  bytes, and 13 for \<open>0x10\<close>.
\<close>

theorem validation_failure_sends_0x02:
  assumes "12 \<le> length request"
    and "request ! 7 = 0x03
          \<and> reg_size reg < unat (frame_startAddress request) + unat (frame_quantity request)
       \<or> request ! 7 = 0x06 \<and> reg_size reg \<le> unat (frame_startAddress request)
       \<or> request ! 7 = 0x10 \<and> 13 \<le> length request
          \<and> (reg_size reg < unat (frame_startAddress request) + unat (frame_quantity request)
             \<or> unat (request ! 12) \<noteq> unat (frame_quantity request) * 2)"
  shows "processRequest conn request reg =
    Some (conn\<lparr>sent := sent conn @ [[request ! 6, request ! 7 OR 0x80, 0x02]]\<rparr>, reg)"
proof -
  from assms(2) consider
    (read) "request ! 7 = 0x03"
      "length reg < unat (frame_startAddress request) + unat (frame_quantity request)"
    | (single) "request ! 7 = 0x06" "length reg \<le> unat (frame_startAddress request)"
    | (multiple) "request ! 7 = 0x10" "13 \<le> length request"
      "length reg < unat (frame_startAddress request) + unat (frame_quantity request)
        \<or> unat (request ! 12) \<noteq> 2 * unat (frame_quantity request)"
    by (auto simp: reg_size_def)
  then have "processRequest conn request reg =
      Some (sendException conn (request ! 6) (request ! 7) 0x02, reg)"
  proof cases
    case read
    with assms(1) show ?thesis
      by (simp add: processRequest_fields case_0x03_reject)
  next
    case single
    with assms(1) show ?thesis
      by (simp add: processRequest_fields case_0x06_reject)
  next
    case multiple
    then show ?thesis
      using assms(1) case_0x10_reject [OF multiple(2) multiple(3)]
      by (simp add: processRequest_fields)
  qed
  then show ?thesis
    by (simp add: sendException_def write_conn_def)
qed

theorem validation_failure_sends_0x02_witness:
  "(reg_size (replicate 5 0)
      < unat (frame_startAddress [0, 1, 0, 0, 0, 6, 1, 0x03, 0, 3, 0, 5])
        + unat (frame_quantity [0, 1, 0, 0, 0, 6, 1, 0x03, 0, 3, 0, 5])
    \<and> processRequest \<lparr>pending = [], sent = []\<rparr> [0, 1, 0, 0, 0, 6, 1, 0x03, 0, 3, 0, 5]
          (replicate 5 0)
        = Some (\<lparr>pending = [], sent = [[1, 0x83, 0x02]]\<rparr>, replicate 5 0))
   \<and> (reg_size (replicate 5 0)
      \<le> unat (frame_startAddress [0, 2, 0, 0, 0, 6, 1, 0x06, 0, 5, 0x12, 0x34])
    \<and> processRequest \<lparr>pending = [], sent = []\<rparr> [0, 2, 0, 0, 0, 6, 1, 0x06, 0, 5, 0x12, 0x34]
          (replicate 5 0)
        = Some (\<lparr>pending = [], sent = [[1, 0x86, 0x02]]\<rparr>, replicate 5 0))
   \<and> (unat ([0, 3, 0, 0, 0, 11, 1, 0x10, 0, 0, 0, 2, 3, 0, 1, 0, 2 :: byte] ! 12)
      \<noteq> unat (frame_quantity [0, 3, 0, 0, 0, 11, 1, 0x10, 0, 0, 0, 2, 3, 0, 1, 0, 2]) * 2
    \<and> processRequest \<lparr>pending = [], sent = []\<rparr>
          [0, 3, 0, 0, 0, 11, 1, 0x10, 0, 0, 0, 2, 3, 0, 1, 0, 2] (replicate 5 0)
        = Some (\<lparr>pending = [], sent = [[1, 0x90, 0x02]]\<rparr>, replicate 5 0))"
proof -
  let ?c = "\<lparr>pending = [], sent = []\<rparr>"
  let ?r = "replicate 5 0 :: u16 list"
  let ?f3 = "[0, 1, 0, 0, 0, 6, 1, 0x03, 0, 3, 0, 5 :: byte]"
  let ?f6 = "[0, 2, 0, 0, 0, 6, 1, 0x06, 0, 5, 0x12, 0x34 :: byte]"
  let ?f16 = "[0, 3, 0, 0, 0, 11, 1, 0x10, 0, 0, 0, 2, 3, 0, 1, 0, 2 :: byte]"
  have l3: "12 \<le> length ?f3" and l6: "12 \<le> length ?f6" and l16: "12 \<le> length ?f16"
    by simp_all
  have v3: "reg_size ?r < unat (frame_startAddress ?f3) + unat (frame_quantity ?f3)"
    by code_simp
  have v6: "reg_size ?r \<le> unat (frame_startAddress ?f6)"
    by code_simp
  have v16: "unat (?f16 ! 12) \<noteq> unat (frame_quantity ?f16) * 2"
    by code_simp
  have h3: "?f3 ! 7 = 0x03
          \<and> reg_size ?r < unat (frame_startAddress ?f3) + unat (frame_quantity ?f3)
       \<or> ?f3 ! 7 = 0x06 \<and> reg_size ?r \<le> unat (frame_startAddress ?f3)
       \<or> ?f3 ! 7 = 0x10 \<and> 13 \<le> length ?f3
          \<and> (reg_size ?r < unat (frame_startAddress ?f3) + unat (frame_quantity ?f3)
             \<or> unat (?f3 ! 12) \<noteq> unat (frame_quantity ?f3) * 2)"
    using v3 by simp
  have h6: "?f6 ! 7 = 0x03
          \<and> reg_size ?r < unat (frame_startAddress ?f6) + unat (frame_quantity ?f6)
       \<or> ?f6 ! 7 = 0x06 \<and> reg_size ?r \<le> unat (frame_startAddress ?f6)
       \<or> ?f6 ! 7 = 0x10 \<and> 13 \<le> length ?f6
          \<and> (reg_size ?r < unat (frame_startAddress ?f6) + unat (frame_quantity ?f6)
             \<or> unat (?f6 ! 12) \<noteq> unat (frame_quantity ?f6) * 2)"
    using v6 by simp
  have h16: "?f16 ! 7 = 0x03
          \<and> reg_size ?r < unat (frame_startAddress ?f16) + unat (frame_quantity ?f16)
       \<or> ?f16 ! 7 = 0x06 \<and> reg_size ?r \<le> unat (frame_startAddress ?f16)
       \<or> ?f16 ! 7 = 0x10 \<and> 13 \<le> length ?f16
          \<and> (reg_size ?r < unat (frame_startAddress ?f16) + unat (frame_quantity ?f16)
             \<or> unat (?f16 ! 12) \<noteq> unat (frame_quantity ?f16) * 2)"
    using v16 by simp
  have e3: "Some (?c\<lparr>sent := sent ?c @ [[?f3 ! 6, ?f3 ! 7 OR 0x80, 0x02]]\<rparr>, ?r)
      = Some (\<lparr>pending = [], sent = [[1, 0x83, 0x02]]\<rparr>, ?r)"
    by code_simp
  have e6: "Some (?c\<lparr>sent := sent ?c @ [[?f6 ! 6, ?f6 ! 7 OR 0x80, 0x02]]\<rparr>, ?r)
      = Some (\<lparr>pending = [], sent = [[1, 0x86, 0x02]]\<rparr>, ?r)"
    by code_simp
  have e16: "Some (?c\<lparr>sent := sent ?c @ [[?f16 ! 6, ?f16 ! 7 OR 0x80, 0x02]]\<rparr>, ?r)
      = Some (\<lparr>pending = [], sent = [[1, 0x90, 0x02]]\<rparr>, ?r)"
    by code_simp
  show ?thesis
    by (intro conjI v3 v6 v16
        trans [OF validation_failure_sends_0x02 [OF l3 h3, of ?c] e3]
        trans [OF validation_failure_sends_0x02 [OF l6 h6, of ?c] e6]
        trans [OF validation_failure_sends_0x02 [OF l16 h16, of ?c] e16])
qed

section \<open>Write Single Register\<close>

text \<open>
  C6: for every \<open>0x06\<close> request whose start address is below the store size,
  after the dispatch the register at the start address holds the 16-bit value of
  frame bytes 10 and 11, every other register is as before, and the response
  sent is the request frame, byte for byte.
\<close>

theorem write_single_register_ok:
  assumes "12 \<le> length request"
    and "request ! 7 = 0x06"
    and "unat (frame_startAddress request) < reg_size reg"
  shows "processRequest conn request reg =
    Some (conn\<lparr>sent := sent conn @ [request]\<rparr>,
          reg[unat (frame_startAddress request) := u16_of_bytes (request ! 10) (request ! 11)])"
  using assms
  by (simp add: processRequest_fields case_0x06_accept reg_size_def write_conn_def
      frame_quantity_def)

theorem write_single_register_ok_witness:
  "12 \<le> length [0, 1, 0, 0, 0, 6, 1, 6, 0, 2, 0x12, 0x34 :: byte]
   \<and> [0, 1, 0, 0, 0, 6, 1, 6, 0, 2, 0x12, 0x34 :: byte] ! 7 = 0x06
   \<and> unat (frame_startAddress [0, 1, 0, 0, 0, 6, 1, 6, 0, 2, 0x12, 0x34]) < reg_size (replicate 10 0)
   \<and> processRequest \<lparr>pending = [], sent = []\<rparr> [0, 1, 0, 0, 0, 6, 1, 6, 0, 2, 0x12, 0x34]
         (replicate 10 0)
       = Some (\<lparr>pending = [], sent = [[0, 1, 0, 0, 0, 6, 1, 6, 0, 2, 0x12, 0x34]]\<rparr>,
               [0, 0, 0x1234, 0, 0, 0, 0, 0, 0, 0])"
proof -
  let ?f = "[0, 1, 0, 0, 0, 6, 1, 6, 0, 2, 0x12, 0x34 :: byte]"
  let ?c = "\<lparr>pending = [], sent = []\<rparr>"
  have h1: "12 \<le> length ?f"
    by simp
  have h2: "?f ! 7 = 0x06"
    by simp
  have h3: "unat (frame_startAddress ?f) < reg_size (replicate 10 0)"
    by code_simp
  note step = write_single_register_ok [OF h1 h2 h3, of ?c]
  have res: "Some (?c\<lparr>sent := sent ?c @ [?f]\<rparr>,
        (replicate 10 0)[unat (frame_startAddress ?f) := u16_of_bytes (?f ! 10) (?f ! 11)])
      = Some (\<lparr>pending = [], sent = [[0, 1, 0, 0, 0, 6, 1, 6, 0, 2, 0x12, 0x34]]\<rparr>,
               [0, 0, 0x1234, 0, 0, 0, 0, 0, 0, 0])"
    by code_simp
  show ?thesis
    by (intro conjI h1 h2 h3 trans [OF step res])
qed

section \<open>Read Holding Registers\<close>

text \<open>
  C5, as the code has it: for every \<open>0x03\<close> request with start address plus
  quantity within the store, the response is transaction id, protocol id, length,
  unit id, \<open>0x03\<close>, byte count, data; the data is exactly \<open>quantity\<close> big-endian
  words, word \<open>i\<close> being register \<open>startAddress + i\<close>; the store is not
  modified. The length field is a 16-bit value and the byte count one byte:
  they hold \<open>3 + quantity * 2\<close> modulo 65536 and \<open>quantity * 2\<close> modulo 256,
  which are \<open>3 + quantity * 2\<close> and \<open>quantity * 2\<close> themselves up to a quantity
  of 127.
\<close>

theorem read_holding_registers_response:
  assumes "12 \<le> length request" and "request ! 7 = 0x03"
    and "unat (frame_startAddress request) + unat (frame_quantity request) \<le> reg_size reg"
  shows "\<exists>len_hi len_lo byteCount data.
      processRequest conn request reg =
        Some (conn\<lparr>sent := sent conn @
          [take 4 request @ [len_hi, len_lo, request ! 6, 0x03, byteCount] @ data]\<rparr>, reg)
      \<and> unat (u16_of_bytes len_hi len_lo) = (3 + unat (frame_quantity request) * 2) mod 65536
      \<and> unat byteCount = (unat (frame_quantity request) * 2) mod 256
      \<and> (unat (frame_quantity request) \<le> 127 \<longrightarrow>
            unat (u16_of_bytes len_hi len_lo) = 3 + unat (frame_quantity request) * 2
            \<and> unat byteCount = unat (frame_quantity request) * 2)
      \<and> length data = unat (frame_quantity request) * 2
      \<and> (\<forall>i < unat (frame_quantity request).
            u16_of_bytes (data ! (2 * i)) (data ! (2 * i + 1))
              = reg ! (unat (frame_startAddress request) + i))"
proof -
  let ?sa = "frame_startAddress request" and ?q = "frame_quantity request"
  let ?len = "ucast ((3 :: cint) + (ucast ?q * 2)) :: u16"
  let ?regs = "take (unat ?q) (drop (unat ?sa) reg)"
  from assms(3) have inb: "unat ?sa + unat ?q \<le> length reg"
    by (simp add: reg_size_def)
  then have len_regs: "length ?regs = unat ?q"
    by simp
  have words: "u16_of_bytes (register_bytes ?regs ! (2 * i)) (register_bytes ?regs ! (2 * i + 1))
      = reg ! (unat ?sa + i)" if "i < unat ?q" for i
  proof -
    from that len_regs have "i < length ?regs"
      by simp
    from register_bytes_nth [OF this] that inb show ?thesis
      by (simp add: u16_of_high_low)
  qed
  have "processRequest conn request reg =
      Some (conn\<lparr>sent := sent conn @
        [take 4 request @ [high_byte ?len, low_byte ?len, request ! 6, 0x03,
           ucast ((ucast ?q :: cint) * 2)] @ register_bytes ?regs]\<rparr>, reg)"
    using processRequest_0x03_accept [OF assms(1,2) inb] by (simp add: write_conn_def)
  moreover have "unat (u16_of_bytes (high_byte ?len) (low_byte ?len)) = (3 + unat ?q * 2) mod 65536"
    by (simp only: u16_of_high_low unat_length_field)
  moreover have "unat (ucast ((ucast ?q :: cint) * 2) :: byte) = (unat ?q * 2) mod 256"
    by (rule unat_byte_count)
  moreover have "unat ?q \<le> 127 \<longrightarrow>
      unat (u16_of_bytes (high_byte ?len) (low_byte ?len)) = 3 + unat ?q * 2
      \<and> unat (ucast ((ucast ?q :: cint) * 2) :: byte) = unat ?q * 2"
    by (simp add: u16_of_high_low unat_length_field unat_byte_count)
  moreover have "length (register_bytes ?regs) = unat ?q * 2"
    by (simp only: length_register_bytes len_regs mult.commute)
  ultimately show ?thesis
    using words by blast
qed

theorem read_holding_registers_response_witness:
  "12 \<le> length [0, 7, 0, 0, 0, 6, 1, 0x03, 0, 2, 0, 2 :: byte]
   \<and> [0, 7, 0, 0, 0, 6, 1, 0x03, 0, 2, 0, 2 :: byte] ! 7 = 0x03
   \<and> unat (frame_startAddress [0, 7, 0, 0, 0, 6, 1, 0x03, 0, 2, 0, 2])
        + unat (frame_quantity [0, 7, 0, 0, 0, 6, 1, 0x03, 0, 2, 0, 2])
       \<le> reg_size [0, 0, 0x1234, 0xABCD, 0]
   \<and> processRequest \<lparr>pending = [], sent = []\<rparr> [0, 7, 0, 0, 0, 6, 1, 0x03, 0, 2, 0, 2]
         [0, 0, 0x1234, 0xABCD, 0]
       = Some (\<lparr>pending = [],
                 sent = [[0, 7, 0, 0, 0, 7, 1, 0x03, 4, 0x12, 0x34, 0xAB, 0xCD]]\<rparr>,
               [0, 0, 0x1234, 0xABCD, 0])
   \<and> (\<exists>len_hi len_lo byteCount data.
        [0, 7, 0, 0, 0, 7, 1, 0x03, 4, 0x12, 0x34, 0xAB, 0xCD]
          = take 4 [0, 7, 0, 0, 0, 6, 1, 0x03, 0, 2, 0, 2 :: byte]
              @ [len_hi, len_lo, 1, 0x03, byteCount] @ data
        \<and> unat (u16_of_bytes len_hi len_lo) = 7
        \<and> unat byteCount = 4
        \<and> length data = 4
        \<and> u16_of_bytes (data ! 0) (data ! 1) = 0x1234
        \<and> u16_of_bytes (data ! 2) (data ! 3) = 0xABCD)"
proof -
  let ?f = "[0, 7, 0, 0, 0, 6, 1, 0x03, 0, 2, 0, 2 :: byte]"
  let ?r = "[0, 0, 0x1234, 0xABCD, 0 :: u16]"
  let ?c = "\<lparr>pending = [], sent = []\<rparr>"
  have h1: "12 \<le> length ?f"
    by simp
  have h2: "?f ! 7 = 0x03"
    by simp
  have h3: "unat (frame_startAddress ?f) + unat (frame_quantity ?f) \<le> reg_size ?r"
    by code_simp
  have sa: "unat (frame_startAddress ?f) = 2" and q: "unat (frame_quantity ?f) = 2"
    by code_simp+
  have run: "processRequest ?c ?f ?r
      = Some (\<lparr>pending = [], sent = [[0, 7, 0, 0, 0, 7, 1, 0x03, 4, 0x12, 0x34, 0xAB, 0xCD]]\<rparr>, ?r)"
    by code_simp
  from read_holding_registers_response [OF h1 h2 h3, of ?c]
  obtain len_hi len_lo byteCount data where
    eq: "processRequest ?c ?f ?r =
        Some (?c\<lparr>sent := sent ?c @
          [take 4 ?f @ [len_hi, len_lo, ?f ! 6, 0x03, byteCount] @ data]\<rparr>, ?r)"
    and len: "unat (u16_of_bytes len_hi len_lo) = (3 + unat (frame_quantity ?f) * 2) mod 65536"
    and bc: "unat byteCount = (unat (frame_quantity ?f) * 2) mod 256"
    and small: "unat (frame_quantity ?f) \<le> 127 \<longrightarrow>
            unat (u16_of_bytes len_hi len_lo) = 3 + unat (frame_quantity ?f) * 2
            \<and> unat byteCount = unat (frame_quantity ?f) * 2"
    and ld: "length data = unat (frame_quantity ?f) * 2"
    and ws: "\<forall>i < unat (frame_quantity ?f).
            u16_of_bytes (data ! (2 * i)) (data ! (2 * i + 1))
              = ?r ! (unat (frame_startAddress ?f) + i)"
    by blast
  from eq run have resp: "[0, 7, 0, 0, 0, 7, 1, 0x03, 4, 0x12, 0x34, 0xAB, 0xCD]
      = take 4 ?f @ [len_hi, len_lo, 1, 0x03, byteCount] @ data"
    by simp
  have w0: "u16_of_bytes (data ! 0) (data ! 1) = 0x1234"
    using ws [rule_format, of 0] by (simp add: q sa)
  have w1: "u16_of_bytes (data ! 2) (data ! 3) = 0xABCD"
    using ws [rule_format, of 1] by (simp add: q sa)
  from len bc ld have "unat (u16_of_bytes len_hi len_lo) = 7" "unat byteCount = 4" "length data = 4"
    by (simp_all add: q)
  with resp w0 w1 have "\<exists>len_hi len_lo byteCount data.
        [0, 7, 0, 0, 0, 7, 1, 0x03, 4, 0x12, 0x34, 0xAB, 0xCD]
          = take 4 ?f @ [len_hi, len_lo, 1, 0x03, byteCount] @ data
        \<and> unat (u16_of_bytes len_hi len_lo) = 7
        \<and> unat byteCount = 4
        \<and> length data = 4
        \<and> u16_of_bytes (data ! 0) (data ! 1) = 0x1234
        \<and> u16_of_bytes (data ! 2) (data ! 3) = 0xABCD"
    by blast
  with h1 h2 h3 run show ?thesis
    by (intro conjI)
qed

text \<open>
  C5 as stated fails from a quantity of 128 on: with a store of 128 registers and
  a request for all of them, the byte-count byte of the response is 0, not 256.
\<close>

theorem read_byte_count_counterexample:
  "unat (frame_startAddress [0, 1, 0, 0, 0, 6, 1, 0x03, 0, 0, 0, 128])
     + unat (frame_quantity [0, 1, 0, 0, 0, 6, 1, 0x03, 0, 0, 0, 128]) \<le> reg_size (replicate 128 0)
   \<and> processRequest \<lparr>pending = [], sent = []\<rparr> [0, 1, 0, 0, 0, 6, 1, 0x03, 0, 0, 0, 128]
         (replicate 128 0)
       = Some (\<lparr>pending = [], sent = [[0, 1, 0, 0, 1, 3, 1, 0x03, 0] @ replicate 256 0]\<rparr>,
               replicate 128 0)
   \<and> ([0, 1, 0, 0, 1, 3, 1, 0x03, 0] @ replicate 256 0) ! 8 = (0 :: byte)
   \<and> unat (frame_quantity [0, 1, 0, 0, 0, 6, 1, 0x03, 0, 0, 0, 128]) * 2 = 256"
  by code_simp


section \<open>Writing a register and reading it back\<close>

text \<open>
  C8: for every register index \<open>k\<close> below the store size and every 16-bit value
  \<open>V\<close>, dispatching a \<open>0x06\<close> request that writes \<open>V\<close> to register \<open>k\<close> and
  then a \<open>0x03\<close> request that reads register \<open>k\<close> with quantity 1 yields a read
  response whose data word is \<open>V\<close>.
\<close>

theorem write_then_read_roundtrip:
  assumes "12 \<le> length w" and "w ! 7 = 0x06"
    and "frame_startAddress w = k" and "u16_of_bytes (w ! 10) (w ! 11) = V"
    and "unat k < reg_size reg"
    and "12 \<le> length r" and "r ! 7 = 0x03"
    and "frame_startAddress r = k" and "frame_quantity r = 1"
  shows "\<exists>conn1 reg1.
      processRequest conn w reg = Some (conn1, reg1)
      \<and> processRequest conn1 r reg1 =
          Some (conn1\<lparr>sent := sent conn1 @
            [take 4 r @ [0x00, 0x05, r ! 6, 0x03, 0x02, high_byte V, low_byte V]]\<rparr>, reg1)
      \<and> u16_of_bytes (high_byte V) (low_byte V) = V"
proof -
  let ?conn1 = "write_conn conn w" and ?reg1 = "reg[unat k := V]"
  from assms(5) have k: "unat k < length reg"
    by (simp add: reg_size_def)
  have wr: "processRequest conn w reg = Some (?conn1, ?reg1)"
    using processRequest_0x06_accept [OF assms(1,2), of reg conn] assms(3,4) k
    by (simp add: frame_quantity_def)
  have inb: "unat (frame_startAddress r) + unat (frame_quantity r) \<le> length ?reg1"
    using k assms(8,9) by simp
  have regs: "take (Suc 0) (drop (unat k) ?reg1) = [V]"
    using k by (simp add: take_Suc_conv_app_nth Cons_nth_drop_Suc [symmetric])
  have len: "high_byte 5 = 0x00" "low_byte 5 = 0x05"
    by (simp_all add: high_byte_def low_byte_def)
  have rd: "processRequest ?conn1 r ?reg1 =
      Some (?conn1\<lparr>sent := sent ?conn1 @
        [take 4 r @ [0x00, 0x05, r ! 6, 0x03, 0x02, high_byte V, low_byte V]]\<rparr>, ?reg1)"
    using processRequest_0x03_accept [OF assms(6,7) inb, of ?conn1]
    by (simp add: assms(8,9) regs len register_bytes_simps write_conn_def)
  from wr rd show ?thesis
    by (auto simp: u16_of_high_low)
qed


theorem write_then_read_roundtrip_witness:
  "unat (2 :: u16) < reg_size (replicate 10 0)
   \<and> (\<exists>conn1 reg1.
        processRequest \<lparr>pending = [], sent = []\<rparr> [0, 1, 0, 0, 0, 6, 1, 0x06, 0, 2, 0x12, 0x34]
          (replicate 10 0) = Some (conn1, reg1)
        \<and> processRequest conn1 [0, 2, 0, 0, 0, 6, 1, 0x03, 0, 2, 0, 1] reg1 =
            Some (conn1\<lparr>sent := sent conn1 @
              [take 4 [0, 2, 0, 0, 0, 6, 1, 0x03, 0, 2, 0, 1]
                @ [0x00, 0x05, [0, 2, 0, 0, 0, 6, 1, 0x03, 0, 2, 0, 1] ! 6, 0x03, 0x02,
                   high_byte 0x1234, low_byte 0x1234]]\<rparr>, reg1)
        \<and> u16_of_bytes (high_byte 0x1234) (low_byte 0x1234) = 0x1234)"
proof -
  let ?w = "[0, 1, 0, 0, 0, 6, 1, 0x06, 0, 2, 0x12, 0x34 :: byte]"
  let ?r = "[0, 2, 0, 0, 0, 6, 1, 0x03, 0, 2, 0, 1 :: byte]"
  have w: "12 \<le> length ?w" "?w ! 7 = 0x06"
    and r: "12 \<le> length ?r" "?r ! 7 = 0x03"
    by simp_all
  have wk: "frame_startAddress ?w = 2" and wv: "u16_of_bytes (?w ! 10) (?w ! 11) = 0x1234"
    and rk: "frame_startAddress ?r = 2" and rq: "frame_quantity ?r = 1"
    by code_simp+
  have k: "unat (2 :: u16) < reg_size (replicate 10 0)"
    by code_simp
  show ?thesis
    by (intro conjI k write_then_read_roundtrip [OF w wk wv k r rk rq])
qed

section \<open>The range check\<close>

text \<open>
  C9: for \<open>0x03\<close> and \<open>0x10\<close> the range check compares the exact sum of start
  address and quantity with the store size: the two 16-bit fields are widened
  to \<open>int\<close> before the addition, the sum (at most 131070) does not wrap, and
  every request whose exact sum exceeds the store size is rejected with
  exception code \<open>0x02\<close>.
\<close>

theorem range_check_never_wraps:
  assumes "12 \<le> length request"
    and "request ! 7 = 0x03 \<or> request ! 7 = 0x10 \<and> 13 \<le> length request"
  shows "(exceeds_store (frame_startAddress request) (frame_quantity request) reg
          \<longleftrightarrow> reg_size reg < unat (frame_startAddress request) + unat (frame_quantity request))
    \<and> int_to_size_t ((ucast (frame_startAddress request) :: cint) + ucast (frame_quantity request))
        = unat (frame_startAddress request) + unat (frame_quantity request)
    \<and> (reg_size reg < unat (frame_startAddress request) + unat (frame_quantity request)
         \<longrightarrow> processRequest conn request reg =
           Some (conn\<lparr>sent := sent conn @ [[request ! 6, request ! 7 OR 0x80, 0x02]]\<rparr>, reg))"
proof (intro conjI impI)
  show "exceeds_store (frame_startAddress request) (frame_quantity request) reg
      \<longleftrightarrow> reg_size reg < unat (frame_startAddress request) + unat (frame_quantity request)"
    by (simp add: exceeds_store_nat reg_size_def)
  show "int_to_size_t ((ucast (frame_startAddress request) :: cint) + ucast (frame_quantity request))
      = unat (frame_startAddress request) + unat (frame_quantity request)"
    by (rule int_to_size_t_sum)
  assume "reg_size reg < unat (frame_startAddress request) + unat (frame_quantity request)"
  then have out: "length reg < unat (frame_startAddress request) + unat (frame_quantity request)"
    by (simp add: reg_size_def)
  from assms(2) have "processRequest conn request reg =
      Some (sendException conn (request ! 6) (request ! 7) 0x02, reg)"
  proof
    assume "request ! 7 = 0x03"
    with assms(1) out show ?thesis
      by (simp add: processRequest_fields case_0x03_reject)
  next
    assume m: "request ! 7 = 0x10 \<and> 13 \<le> length request"
    with out case_0x10_reject [of request reg conn "request ! 7"] assms(1) show ?thesis
      by (simp add: processRequest_fields)
  qed
  then show "processRequest conn request reg =
      Some (conn\<lparr>sent := sent conn @ [[request ! 6, request ! 7 OR 0x80, 0x02]]\<rparr>, reg)"
    by (simp add: sendException_def write_conn_def)
qed

theorem range_check_never_wraps_witness:
  "reg_size (replicate 10 0)
     < unat (frame_startAddress [0, 1, 0, 0, 0, 6, 1, 0x03, 0xFF, 0xFF, 0, 2])
       + unat (frame_quantity [0, 1, 0, 0, 0, 6, 1, 0x03, 0xFF, 0xFF, 0, 2])
   \<and> unat (frame_startAddress [0, 1, 0, 0, 0, 6, 1, 0x03, 0xFF, 0xFF, 0, 2]
            + frame_quantity [0, 1, 0, 0, 0, 6, 1, 0x03, 0xFF, 0xFF, 0, 2]) = 1
   \<and> exceeds_store (frame_startAddress [0, 1, 0, 0, 0, 6, 1, 0x03, 0xFF, 0xFF, 0, 2])
        (frame_quantity [0, 1, 0, 0, 0, 6, 1, 0x03, 0xFF, 0xFF, 0, 2]) (replicate 10 0)
   \<and> processRequest \<lparr>pending = [], sent = []\<rparr> [0, 1, 0, 0, 0, 6, 1, 0x03, 0xFF, 0xFF, 0, 2]
         (replicate 10 0)
       = Some (\<lparr>pending = [], sent = [[1, 0x83, 0x02]]\<rparr>, replicate 10 0)"
proof -
  let ?f = "[0, 1, 0, 0, 0, 6, 1, 0x03, 0xFF, 0xFF, 0, 2 :: byte]"
  let ?c = "\<lparr>pending = [], sent = []\<rparr>"
  let ?r = "replicate 10 0 :: u16 list"
  have h1: "12 \<le> length ?f"
    by simp
  have h2: "?f ! 7 = 0x03 \<or> ?f ! 7 = 0x10 \<and> 13 \<le> length ?f"
    by simp
  have sa: "frame_startAddress ?f = 0xFFFF" and q: "frame_quantity ?f = 2"
    by code_simp+
  have out: "reg_size ?r < unat (frame_startAddress ?f) + unat (frame_quantity ?f)"
    by (simp add: sa q reg_size_def)
  have wrap: "unat (frame_startAddress ?f + frame_quantity ?f) = 1"
    by (simp add: sa q)
  note inst = range_check_never_wraps [OF h1 h2, of ?r ?c]
  from inst out have ex: "exceeds_store (frame_startAddress ?f) (frame_quantity ?f) ?r"
    by (simp only: simp_thms)
  from inst out have "processRequest ?c ?f ?r =
      Some (?c\<lparr>sent := sent ?c @ [[?f ! 6, ?f ! 7 OR 0x80, 0x02]]\<rparr>, ?r)"
    by (simp only: simp_thms)
  moreover have "Some (?c\<lparr>sent := sent ?c @ [[?f ! 6, ?f ! 7 OR 0x80, 0x02]]\<rparr>, ?r)
      = Some (\<lparr>pending = [], sent = [[1, 0x83, 0x02]]\<rparr>, ?r)"
    by code_simp
  ultimately have run: "processRequest ?c ?f ?r = Some (\<lparr>pending = [], sent = [[1, 0x83, 0x02]]\<rparr>, ?r)"
    by (rule trans)
  show ?thesis
    by (intro conjI out wrap ex run)
qed

section \<open>Write Multiple Registers\<close>

text \<open>
  C1: a \<open>0x10\<close> request that passes validation has its values written, and the
  response after the six-byte prefix should be unit id, \<open>0x10\<close>, start address,
  quantity, with a length field of 6. The code copies the prefix of the request,
  length field included, and pushes frame byte 7 (the function code) where the
  unit id belongs: for unit id \<open>0x11\<close> and a request length of 9 the response
  carries length 9 and \<open>0x10\<close> in place of \<open>0x11\<close>. What the code does on every
  valid request whose frame holds all the announced values is
  \<open>processRequest_0x10_accept\<close>: the writes are as claimed, the response is not.
\<close>

theorem write_multiple_response_defect:
  "processRequest \<lparr>pending = [], sent = []\<rparr>
     [0, 1, 0, 0, 0, 9, 0x11, 0x10, 0, 2, 0, 1, 2, 0x12, 0x34] (replicate 10 0)
   = Some (\<lparr>pending = [], sent = [[0, 1, 0, 0, 0, 9, 0x10, 0x10, 0, 2, 0, 1]]\<rparr>,
           [0, 0, 0x1234, 0, 0, 0, 0, 0, 0, 0])"
  by code_simp

section \<open>A failed read of the frame body\<close>

text \<open>
  C2: when one of the two exact reads of a frame fails, the session should end
  without dispatching the partial frame. The result of the second read is not
  tested (\<open>clientThread_loop_body_read_ignored\<close>; a failed read of the prefix
  does end the session, \<open>clientThread_loop_prefix_fails\<close>): when the stream
  ends after three of the six announced bytes, the frame, completed by the
  bytes the resized vector holds, is dispatched; here it is a Write Single
  Register that clears register 0 and is echoed.
\<close>

theorem partial_frame_dispatched:
  "readExact \<lparr>pending = [[1, 0x06, 0]], sent = []\<rparr> (replicate 6 0) 6
     = (False, [1, 0x06, 0, 0, 0, 0], \<lparr>pending = [], sent = []\<rparr>)
   \<and> clientThread (\<lambda>n. False) \<lparr>pending = [[0, 1, 0, 0, 0, 6], [1, 0x06, 0]], sent = []\<rparr>
         [0x1234, 0x5678]
       = Some (\<lparr>pending = [], sent = [[0, 1, 0, 0, 0, 6, 1, 0x06, 0, 0, 0, 0]]\<rparr>,
               [0, 0x5678])"
  by code_simp

section \<open>Exception frames\<close>

text \<open>
  C3: every exception frame should be unit id (frame byte 6), function code with
  bit \<open>0x80\<close> set, exception code. For an unsupported function code the first
  byte sent is frame byte 0, the high byte of the transaction id
  (\<open>processRequest_default\<close>): \<open>0x12\<close> here, where the unit id is \<open>0x01\<close>.
\<close>

theorem illegal_function_first_byte:
  "processRequest \<lparr>pending = [], sent = []\<rparr> [0x12, 0x34, 0, 0, 0, 6, 0x01, 0x07, 0, 0, 0, 0]
     (replicate 10 0)
   = Some (\<lparr>pending = [], sent = [[0x12, 0x87, 0x01]]\<rparr>, replicate 10 0)"
  by code_simp


text \<open>
  C7: a request with an unsupported function code should be answered with the
  function code with bit \<open>0x80\<close> set, followed by exception code \<open>0x01\<close>. The
  start address and the quantity are read from frame bytes 8 to 11 before the
  function code is looked at: a frame that ends after the function code, such as
  a Read Exception Status request (\<open>0x07\<close>), is read beyond its end
  (\<open>processRequest_short_frame\<close>).
\<close>

theorem illegal_function_short_frame:
  "processRequest \<lparr>pending = [], sent = []\<rparr> [0, 1, 0, 0, 0, 2, 0x01, 0x07] (replicate 10 0) = None"
  by code_simp


end
